theory Spec2Isabelle
  imports Main
begin

section \<open>Python values used by the poker simulator\<close>

text \<open>
  The simulator is written in Python. Ranks are Python integers (\<open>int\<close>), a card is a
  pair \<open>(rank, suit)\<close>, and the functions of \<^verbatim>\<open>hand_evaluator.py\<close> raise
  \<^verbatim>\<open>IndexError\<close> (the subscript \<^verbatim>\<open>[0]\<close> on an empty list) or \<^verbatim>\<open>ValueError\<close>
  (\<^verbatim>\<open>max\<close> of an empty list); \<^verbatim>\<open>game.py\<close> can raise \<^verbatim>\<open>ZeroDivisionError\<close>
  (the modulus by \<^verbatim>\<open>num_players\<close>). Every raise is a value \<open>Inl e\<close> of the model.
\<close>

datatype py_error = IndexError | ValueError | ZeroDivisionError

datatype suit = Hearts | Diamonds | Clubs | Spades

type_synonym 's card = "int \<times> 's"

text \<open>
  \<^verbatim>\<open>collections.Counter(xs)\<close>: a dictionary in insertion order. A key seen for the first
  time is appended with count 1, a key seen again has its count incremented in place.
\<close>

fun counter_add :: "'k \<Rightarrow> ('k \<times> nat) list \<Rightarrow> ('k \<times> nat) list" where
  "counter_add k [] = [(k, 1)]"
| "counter_add k ((k', n) # m) =
     (if k = k' then (k', n + 1) # m else (k', n) # counter_add k m)"

definition Counter :: "'k list \<Rightarrow> ('k \<times> nat) list" where
  "Counter xs = foldl (\<lambda>m k. counter_add k m) [] xs"

text \<open>\<^verbatim>\<open>d.values()\<close>, and iteration over the keys of \<^verbatim>\<open>d\<close>, both in insertion order.\<close>

definition dict_values :: "('k \<times> 'v) list \<Rightarrow> 'v list" where
  "dict_values d = map snd d"

definition dict_keys :: "('k \<times> 'v) list \<Rightarrow> 'k list" where
  "dict_keys d = map fst d"

text \<open>\<^verbatim>\<open>xs[0]\<close> and \<^verbatim>\<open>max(xs)\<close>, with their exceptions.\<close>

fun first :: "'a list \<Rightarrow> py_error + 'a" where
  "first [] = Inl IndexError"
| "first (x # xs) = Inr x"

fun py_max :: "int list \<Rightarrow> py_error + int" where
  "py_max [] = Inl ValueError"
| "py_max (x # xs) = Inr (fold max xs x)"

text \<open>
  \<^verbatim>\<open>sorted(set(xs))\<close> (the distinct values, ascending) and
  \<^verbatim>\<open>sorted(xs, reverse=True)\<close> (all values, descending).
\<close>

definition sorted_set :: "int list \<Rightarrow> int list" where
  "sorted_set xs = sort (remdups xs)"

definition sorted_reverse :: "int list \<Rightarrow> int list" where
  "sorted_reverse xs = rev (sort xs)"

text \<open>
  \<^verbatim>\<open>xs[i:j]\<close> for \<open>0 \<le> i \<le> j\<close>, \<^verbatim>\<open>list(range(a, b))\<close>, and the extended slice
  \<^verbatim>\<open>xs[start:stop:-1]\<close>. In the extended slice a negative bound counts from the end of
  the list: Python adds the length to it, and clips the result to \<open>-1 .. length - 1\<close>.
\<close>

definition py_slice :: "'a list \<Rightarrow> nat \<Rightarrow> nat \<Rightarrow> 'a list" where
  "py_slice xs i j = take (j - i) (drop i xs)"

definition py_range :: "int \<Rightarrow> int \<Rightarrow> int list" where
  "py_range a b = [a..b - 1]"

definition adjust_index :: "int \<Rightarrow> int \<Rightarrow> int" where
  "adjust_index n k =
     (if k < 0 then (if k + n < 0 then - 1 else k + n)
      else if n \<le> k then n - 1 else k)"

definition py_slice_rev :: "'a list \<Rightarrow> int \<Rightarrow> int \<Rightarrow> 'a list" where
  "py_slice_rev xs start stop =
     (let n = int (length xs);
          s = adjust_index n start;
          e = adjust_index n stop
      in if e < s then map (\<lambda>k. xs ! nat k) (rev [e + 1..s]) else [])"

text \<open>Python compares lists lexicographically: \<^verbatim>\<open>xs > ys\<close>.\<close>

fun list_gt :: "int list \<Rightarrow> int list \<Rightarrow> bool" where
  "list_gt [] ys = False"
| "list_gt (x # xs) [] = True"
| "list_gt (x # xs) (y # ys) = (if x = y then list_gt xs ys else y < x)"

section \<open>hand\_evaluator.py\<close>

text \<open>
  \<^verbatim>\<open>is_straight(ranks)\<close>: the scan \<^verbatim>\<open>for i in range(len(unique_ranks) - 4)\<close> looks for
  the first window of five consecutive values; \<open>straight_window u i\<close> is its test
  \<^verbatim>\<open>unique_ranks[i:i+5] == list(range(unique_ranks[i], unique_ranks[i]+5))\<close>, and
  \<open>first_window u\<close> the first index that passes, if any.
\<close>

definition straight_window :: "int list \<Rightarrow> nat \<Rightarrow> bool" where
  "straight_window u i = (py_slice u i (i + 5) = py_range (u ! i) (u ! i + 5))"

definition first_window :: "int list \<Rightarrow> nat option" where
  "first_window u = find (straight_window u) [0..<length u - 4]"

definition wheel :: "int list \<Rightarrow> bool" where
  "wheel u = (set [14, 2, 3, 4, 5] \<subseteq> set u)"

definition is_straight :: "int list \<Rightarrow> bool" where
  "is_straight ranks =
     (let unique_ranks = sorted_set ranks
      in if length unique_ranks < 5 then False
         else if first_window unique_ranks \<noteq> None then True
         else if wheel unique_ranks then True
         else False)"

definition get_best_straight :: "int list \<Rightarrow> int list" where
  "get_best_straight ranks =
     (let unique_ranks = sorted_set ranks
      in case first_window unique_ranks of
           Some i \<Rightarrow> py_slice_rev unique_ranks (int i + 4) (int i - 1)
         | None \<Rightarrow> if wheel unique_ranks then [5, 4, 3, 2, 14] else [])"

definition is_straight_flush :: "'s card list \<Rightarrow> bool" where
  "is_straight_flush all_cards =
     (let suits = map snd all_cards;
          suit_counts = Counter suits
      in list_ex (\<lambda>(suit, count).
            5 \<le> count \<and> is_straight (map fst (filter (\<lambda>card. snd card = suit) all_cards)))
           suit_counts)"

definition is_four_of_a_kind :: "(int \<times> nat) list \<Rightarrow> bool" where
  "is_four_of_a_kind rank_counts = (4 \<in> set (dict_values rank_counts))"

definition is_full_house :: "(int \<times> nat) list \<Rightarrow> bool" where
  "is_full_house rank_counts =
     (3 \<in> set (dict_values rank_counts) \<and> 2 \<in> set (dict_values rank_counts))"

definition is_flush :: "('s \<times> nat) list \<Rightarrow> bool" where
  "is_flush suit_counts = list_ex (\<lambda>count. 5 \<le> count) (dict_values suit_counts)"

definition is_three_of_a_kind :: "(int \<times> nat) list \<Rightarrow> bool" where
  "is_three_of_a_kind rank_counts = (3 \<in> set (dict_values rank_counts))"

definition is_two_pair :: "(int \<times> nat) list \<Rightarrow> bool" where
  "is_two_pair rank_counts = (2 \<le> count_list (dict_values rank_counts) 2)"

definition is_one_pair :: "(int \<times> nat) list \<Rightarrow> bool" where
  "is_one_pair rank_counts = (2 \<in> set (dict_values rank_counts))"

definition get_high_card :: "int list \<Rightarrow> int list" where
  "get_high_card ranks = sorted_reverse ranks"

text \<open>\<open>ranks_with P rank_counts\<close> is \<^verbatim>\<open>[rank for rank, count in rank_counts.items() if P(count)]\<close>.\<close>

definition ranks_with :: "(nat \<Rightarrow> bool) \<Rightarrow> ('k \<times> nat) list \<Rightarrow> 'k list" where
  "ranks_with P rank_counts = map fst (filter (\<lambda>(rank, count). P count) rank_counts)"

definition get_best_four_of_a_kind :: "(int \<times> nat) list \<Rightarrow> py_error + int list" where
  "get_best_four_of_a_kind rank_counts =
     (case first (ranks_with (\<lambda>count. count = 4) rank_counts) of
        Inl e \<Rightarrow> Inl e
      | Inr four_rank \<Rightarrow>
          (case py_max (filter (\<lambda>rank. rank \<noteq> four_rank) (dict_keys rank_counts)) of
             Inl e \<Rightarrow> Inl e
           | Inr kicker \<Rightarrow> Inr [four_rank, kicker]))"

definition get_best_full_house :: "(int \<times> nat) list \<Rightarrow> py_error + int list" where
  "get_best_full_house rank_counts =
     (case first (ranks_with (\<lambda>count. count = 3) rank_counts) of
        Inl e \<Rightarrow> Inl e
      | Inr three_rank \<Rightarrow>
          (case first (ranks_with (\<lambda>count. count = 2) rank_counts) of
             Inl e \<Rightarrow> Inl e
           | Inr pair_rank \<Rightarrow> Inr [three_rank, pair_rank]))"

definition get_best_flush :: "'s card list \<Rightarrow> py_error + int list" where
  "get_best_flush all_cards =
     (let suits = map snd all_cards;
          suit_counts = Counter suits
      in case first (ranks_with (\<lambda>count. 5 \<le> count) suit_counts) of
           Inl e \<Rightarrow> Inl e
         | Inr flush_suit \<Rightarrow>
             Inr (take 5 (sorted_reverse
                    (map fst (filter (\<lambda>card. snd card = flush_suit) all_cards)))))"

definition get_best_three_of_a_kind :: "(int \<times> nat) list \<Rightarrow> int list \<Rightarrow> py_error + int list" where
  "get_best_three_of_a_kind rank_counts all_ranks =
     (case first (ranks_with (\<lambda>count. count = 3) rank_counts) of
        Inl e \<Rightarrow> Inl e
      | Inr three_rank \<Rightarrow>
          Inr (three_rank #
               take 2 (sorted_reverse (filter (\<lambda>rank. rank \<noteq> three_rank) all_ranks))))"

definition get_best_two_pair :: "(int \<times> nat) list \<Rightarrow> int list \<Rightarrow> py_error + int list" where
  "get_best_two_pair rank_counts all_ranks =
     (let pairs = take 2 (sorted_reverse (ranks_with (\<lambda>count. count = 2) rank_counts))
      in case py_max (filter (\<lambda>rank. rank \<notin> set pairs) all_ranks) of
           Inl e \<Rightarrow> Inl e
         | Inr kicker \<Rightarrow> Inr (pairs @ [kicker]))"

definition get_best_one_pair :: "(int \<times> nat) list \<Rightarrow> int list \<Rightarrow> py_error + int list" where
  "get_best_one_pair rank_counts all_ranks =
     (case first (ranks_with (\<lambda>count. count = 2) rank_counts) of
        Inl e \<Rightarrow> Inl e
      | Inr pair \<Rightarrow>
          Inr (pair # take 3 (sorted_reverse (filter (\<lambda>rank. rank \<noteq> pair) all_ranks))))"

text \<open>\<open>ranked n r\<close> is \<^verbatim>\<open>return (n, r)\<close> where computing \<open>r\<close> may have raised.\<close>

definition ranked :: "int \<Rightarrow> py_error + int list \<Rightarrow> py_error + (int \<times> int list)" where
  "ranked n r = (case r of Inl e \<Rightarrow> Inl e | Inr best_ranks \<Rightarrow> Inr (n, best_ranks))"

definition evaluate_hand :: "'s card list \<Rightarrow> 's card list \<Rightarrow> py_error + (int \<times> int list)" where
  "evaluate_hand hand community_cards =
     (let all_cards = hand @ community_cards;
          all_ranks = map fst all_cards;
          all_suits = map snd all_cards;
          rank_counts = Counter all_ranks;
          suit_counts = Counter all_suits
      in if is_straight_flush all_cards then ranked 9 (Inr (get_best_straight all_ranks))
         else if is_four_of_a_kind rank_counts then ranked 8 (get_best_four_of_a_kind rank_counts)
         else if is_full_house rank_counts then ranked 7 (get_best_full_house rank_counts)
         else if is_flush suit_counts then ranked 6 (get_best_flush all_cards)
         else if is_straight all_ranks then ranked 5 (Inr (get_best_straight all_ranks))
         else if is_three_of_a_kind rank_counts
           then ranked 4 (get_best_three_of_a_kind rank_counts all_ranks)
         else if is_two_pair rank_counts then ranked 3 (get_best_two_pair rank_counts all_ranks)
         else if is_one_pair rank_counts then ranked 2 (get_best_one_pair rank_counts all_ranks)
         else ranked 1 (Inr (get_high_card all_ranks)))"

section \<open>deck.py\<close>

text \<open>
  The deck is the list \<^verbatim>\<open>Deck.cards\<close>. \<^verbatim>\<open>random.shuffle\<close> is the environment's choice of
  an order: \<^verbatim>\<open>reset\<close> takes the shuffled list as its argument \<open>shuffled\<close>, some
  arrangement of \<open>full_deck\<close>. Cards are dealt with \<^verbatim>\<open>cards.pop()\<close>, from the end of the
  list, and \<^verbatim>\<open>pop\<close> on an empty list raises \<^verbatim>\<open>IndexError\<close>.
\<close>

definition full_deck :: "suit card list" where
  "full_deck = concat (map (\<lambda>rank. map (\<lambda>s. (rank, s)) [Hearts, Diamonds, Clubs, Spades])
                        [2..14])"

definition pop :: "'a list \<Rightarrow> py_error + ('a \<times> 'a list)" where
  "pop cards = (if cards = [] then Inl IndexError else Inr (last cards, butlast cards))"

text \<open>\<^verbatim>\<open>[self.cards.pop() for _ in range(n)]\<close>: the dealt cards and the rest of the deck.\<close>

fun pop_n :: "nat \<Rightarrow> 'a list \<Rightarrow> py_error + ('a list \<times> 'a list)" where
  "pop_n 0 cards = Inr ([], cards)"
| "pop_n (Suc n) cards =
     (case pop cards of
        Inl e \<Rightarrow> Inl e
      | Inr (c, cards') \<Rightarrow>
          (case pop_n n cards' of
             Inl e \<Rightarrow> Inl e
           | Inr (cs, cards'') \<Rightarrow> Inr (c # cs, cards'')))"

definition deal_hand :: "'a list \<Rightarrow> py_error + ('a list \<times> 'a list)" where
  "deal_hand cards = pop_n 2 cards"

definition deal_flop :: "'a list \<Rightarrow> py_error + ('a list \<times> 'a list)" where
  "deal_flop cards = pop_n 3 cards"

definition deal_turn :: "'a list \<Rightarrow> py_error + ('a \<times> 'a list)" where
  "deal_turn cards = pop cards"

definition deal_river :: "'a list \<Rightarrow> py_error + ('a \<times> 'a list)" where
  "deal_river cards = pop cards"

section \<open>player.py\<close>

record player =
  name :: string
  chips :: int
  hand :: "suit card list"
  current_bet :: int
  is_active :: bool

definition new_player :: "string \<Rightarrow> int \<Rightarrow> player" where
  "new_player n c = \<lparr>name = n, chips = c, hand = [], current_bet = 0, is_active = True\<rparr>"

text \<open>
  \<^verbatim>\<open>random.randint(a, b)\<close> is the environment's choice of a value in \<open>a .. b\<close>, decided by
  the number \<open>r\<close>. Both calls below are guarded so that \<open>a \<le> b\<close>, where Python's
  \<^verbatim>\<open>randint\<close> does not raise.
\<close>

definition randint :: "int \<Rightarrow> int \<Rightarrow> nat \<Rightarrow> int" where
  "randint a b r = a + int r mod (b - a + 1)"

text \<open>The parameter \<^verbatim>\<open>current_bet\<close> of the three methods below is \<open>table_bet\<close> here.\<close>

definition calculate_bet_amount :: "player \<Rightarrow> int \<Rightarrow> nat \<Rightarrow> int" where
  "calculate_bet_amount self table_bet r =
     (let bet_min = max table_bet 50;
          bet_max = min (chips self) (table_bet + 200)
      in if bet_max < bet_min then chips self
         else randint bet_min bet_max r)"

definition calculate_raise_amount :: "player \<Rightarrow> int \<Rightarrow> nat \<Rightarrow> int" where
  "calculate_raise_amount self table_bet r =
     (if chips self \<le> table_bet * 2 then chips self
      else let raise_min = table_bet * 2;
               raise_max = min (chips self) (table_bet * 3 + 100)
           in if raise_max < raise_min then chips self
              else randint raise_min raise_max r)"

text \<open>
  \<^verbatim>\<open>make_decision\<close>: \<open>answer\<close> is what \<^verbatim>\<open>get_ai_decision(self.hand, community_cards)\<close>
  returned for this player, \<open>r\<close> decides the random amount. The result is the returned
  decision and the player after the call.
\<close>

definition make_decision :: "player \<Rightarrow> int \<Rightarrow> string \<Rightarrow> nat \<Rightarrow> string \<times> player" where
  "make_decision self table_bet answer r =
     (if \<not> is_active self then (''fold'', self)
      else if answer = ''fold'' then (answer, self\<lparr>is_active := False\<rparr>)
      else if answer = ''check'' then (answer, self)
      else if answer = ''bet'' then
        (let bet_amount = calculate_bet_amount self table_bet r
         in (answer, self\<lparr>chips := chips self - bet_amount, current_bet := bet_amount\<rparr>))
      else if answer = ''raise'' then
        (let raise_amount = calculate_raise_amount self table_bet r
         in (answer, self\<lparr>chips := chips self - raise_amount, current_bet := raise_amount\<rparr>))
      else (answer, self\<lparr>is_active := False\<rparr>))"

definition reset_for_next_round :: "player \<Rightarrow> player" where
  "reset_for_next_round self = self\<lparr>hand := [], current_bet := 0, is_active := True\<rparr>"

section \<open>game.py\<close>

text \<open>
  A line of the game log, with the values its format string prints: the round header, a
  dealt hand, the header of a betting round, a community-card line (\<^verbatim>\<open>Flop:\<close>,
  \<^verbatim>\<open>Turn:\<close>, \<^verbatim>\<open>River:\<close>), a betting action, and the lines of \<^verbatim>\<open>determine_winner\<close>.
\<close>

datatype log_line =
    New_Round
  | Dealt string "suit card list"
  | Betting_Round string
  | Community string "suit card list"
  | Action string string int
  | No_Active_Players
  | Hand_Value string int "int list" string
  | Winner string "suit card list" "suit card list"
  | No_Winner

record game =
  num_players :: int
  players :: "player list"
  deck :: "suit card list"
  community_cards :: "suit card list"
  pot :: int
  log :: "log_line list"
  dealer_position :: int

text \<open>
  \<^verbatim>\<open>PokerGame(num_players, starting_chips)\<close>; \<open>shuffled\<close> is the deck as the constructor of
  \<^verbatim>\<open>Deck\<close> shuffled it, \<open>names\<close> the names \<^verbatim>\<open>AI Player 1\<close>, \<^verbatim>\<open>AI Player 2\<close>, ..., one for
  each of \<^verbatim>\<open>range(num_players)\<close>.
\<close>

definition new_game :: "string list \<Rightarrow> int \<Rightarrow> suit card list \<Rightarrow> game" where
  "new_game names starting_chips shuffled =
     \<lparr>num_players = int (length names),
      players = map (\<lambda>n. new_player n starting_chips) names,
      deck = shuffled, community_cards = [], pot = 0, log = [], dealer_position = 0\<rparr>"

text \<open>
  \<^verbatim>\<open>betting_round\<close>. The loop \<^verbatim>\<open>for player in self.players\<close> is \<open>betting_loop\<close>: \<open>i\<close> is
  the seat of the player at the head of the list, \<open>answers i\<close> the answer of the decision
  service and the random number for that seat, \<open>table_bet\<close> the local variable
  \<^verbatim>\<open>current_bet\<close>, and \<open>(pt, lg)\<close> the fields \<^verbatim>\<open>self.pot\<close> and \<^verbatim>\<open>self.log\<close>.
\<close>

fun betting_loop ::
  "(nat \<Rightarrow> string \<times> nat) \<Rightarrow> nat \<Rightarrow> player list \<Rightarrow> int \<Rightarrow> int \<Rightarrow> log_line list
     \<Rightarrow> player list \<times> int \<times> log_line list" where
  "betting_loop answers i [] table_bet pt lg = ([], pt, lg)"
| "betting_loop answers i (p # ps) table_bet pt lg =
     (if is_active p then
        (case make_decision p table_bet (fst (answers i)) (snd (answers i)) of
           (decision, p') \<Rightarrow>
             (case betting_loop answers (i + 1) ps
                     (if table_bet < current_bet p' then current_bet p' else table_bet)
                     (pt + current_bet p')
                     (lg @ [Action (name p') decision (current_bet p')]) of
                (ps', pt', lg') \<Rightarrow> (p' # ps', pt', lg')))
      else
        (case betting_loop answers (i + 1) ps table_bet pt lg of
           (ps', pt', lg') \<Rightarrow> (p # ps', pt', lg')))"

definition betting_round :: "string \<Rightarrow> (nat \<Rightarrow> string \<times> nat) \<Rightarrow> game \<Rightarrow> game" where
  "betting_round round_name answers g =
     (case betting_loop answers 0 (players g) 0 (pot g) (log g @ [Betting_Round round_name]) of
        (ps', pt', lg') \<Rightarrow> g\<lparr>players := ps', pot := pt', log := lg'\<rparr>)"

text \<open>
  \<^verbatim>\<open>play_pre_flop\<close>. \<open>deal_hands\<close> is its loop \<^verbatim>\<open>for player in self.players\<close>, which deals
  two cards to every player, active or not; \<open>pre_flop_deal\<close> is the method up to the
  betting round, \<open>play_pre_flop\<close> the whole of it. \<^verbatim>\<open>% self.num_players\<close> raises
  \<^verbatim>\<open>ZeroDivisionError\<close> when there are no players.
\<close>

fun deal_hands ::
  "player list \<Rightarrow> suit card list \<Rightarrow> log_line list
     \<Rightarrow> py_error + (player list \<times> suit card list \<times> log_line list)" where
  "deal_hands [] cards lg = Inr ([], cards, lg)"
| "deal_hands (p # ps) cards lg =
     (case deal_hand cards of
        Inl e \<Rightarrow> Inl e
      | Inr (h, cards') \<Rightarrow>
          (case deal_hands ps cards' (lg @ [Dealt (name p) h]) of
             Inl e \<Rightarrow> Inl e
           | Inr (ps', cards'', lg') \<Rightarrow> Inr (p\<lparr>hand := h\<rparr> # ps', cards'', lg')))"

definition pre_flop_deal :: "suit card list \<Rightarrow> game \<Rightarrow> py_error + game" where
  "pre_flop_deal shuffled g =
     (if num_players g = 0 then Inl ZeroDivisionError
      else
        (case deal_hands (players g) shuffled (log g @ [New_Round]) of
           Inl e \<Rightarrow> Inl e
         | Inr (ps', cards', lg') \<Rightarrow>
             Inr (g\<lparr>players := ps', deck := cards', community_cards := [], pot := 0,
                    log := lg',
                    dealer_position := (dealer_position g + 1) mod num_players g\<rparr>)))"

definition play_pre_flop ::
  "suit card list \<Rightarrow> (nat \<Rightarrow> string \<times> nat) \<Rightarrow> game \<Rightarrow> py_error + game" where
  "play_pre_flop shuffled answers g =
     (case pre_flop_deal shuffled g of
        Inl e \<Rightarrow> Inl e
      | Inr g' \<Rightarrow> Inr (betting_round ''Pre-Flop'' answers g'))"

definition play_flop :: "(nat \<Rightarrow> string \<times> nat) \<Rightarrow> game \<Rightarrow> py_error + game" where
  "play_flop answers g =
     (case deal_flop (deck g) of
        Inl e \<Rightarrow> Inl e
      | Inr (flop, cards') \<Rightarrow>
          Inr (betting_round ''Flop'' answers
                 (g\<lparr>deck := cards', community_cards := flop,
                    log := log g @ [Community ''Flop'' flop]\<rparr>)))"

definition play_turn :: "(nat \<Rightarrow> string \<times> nat) \<Rightarrow> game \<Rightarrow> py_error + game" where
  "play_turn answers g =
     (case deal_turn (deck g) of
        Inl e \<Rightarrow> Inl e
      | Inr (turn, cards') \<Rightarrow>
          Inr (betting_round ''Turn'' answers
                 (g\<lparr>deck := cards', community_cards := community_cards g @ [turn],
                    log := log g @ [Community ''Turn'' (community_cards g @ [turn])]\<rparr>)))"

definition play_river :: "(nat \<Rightarrow> string \<times> nat) \<Rightarrow> game \<Rightarrow> py_error + game" where
  "play_river answers g =
     (case deal_river (deck g) of
        Inl e \<Rightarrow> Inl e
      | Inr (river, cards') \<Rightarrow>
          Inr (betting_round ''River'' answers
                 (g\<lparr>deck := cards', community_cards := community_cards g @ [river],
                    log := log g @ [Community ''River'' (community_cards g @ [river])]\<rparr>)))"




definition any_active_players :: "game \<Rightarrow> bool" where
  "any_active_players g = list_ex is_active (players g)"



section \<open>gui.py\<close>

text \<open>
  \<^verbatim>\<open>reset_game_for_next_round\<close> of the window, on the game it drives: the round header,
  \<^verbatim>\<open>deck.reset()\<close> (to the order \<open>shuffled\<close>), \<^verbatim>\<open>reset_for_next_round\<close> for every player,
  no community cards, an empty pot. The stage counter, the widgets and the timer of the
  window are not part of the game state.
\<close>

definition reset_game_for_next_round :: "suit card list \<Rightarrow> game \<Rightarrow> game" where
  "reset_game_for_next_round shuffled g =
     g\<lparr>log := log g @ [New_Round], deck := shuffled,
       players := map reset_for_next_round (players g),
       community_cards := [], pot := 0\<rparr>"

section \<open>ollama\_integration.py\<close>





















section \<open>Runs of five ranks\<close>

text \<open>
  The words of the specification for straights: the set of ranks \<open>R\<close> holds the run of five
  consecutive values that starts at \<open>a\<close>; and the ranks of the cards of one suit, the list
  \<^verbatim>\<open>suited_cards\<close> of \<^verbatim>\<open>is_straight_flush\<close>.
\<close>

definition run_in :: "int \<Rightarrow> int set \<Rightarrow> bool" where
  "run_in a R = ({a, a + 1, a + 2, a + 3, a + 4} \<subseteq> R)"

definition ranks_of_suit :: "'s \<Rightarrow> 's card list \<Rightarrow> int list" where
  "ranks_of_suit s cards = map fst (filter (\<lambda>card. snd card = s) cards)"

section \<open>Example tables\<close>

text \<open>
  A table of two at the end of a round in which the second player bet 75 and then folded.
\<close>

definition folded_table :: game where
  "folded_table =
     \<lparr>num_players = 2,
      players =
        [\<lparr>name = ''AI Player 1'', chips = 1075, hand = [(14, Hearts), (13, Hearts)],
           current_bet = 0, is_active = True\<rparr>,
         \<lparr>name = ''AI Player 2'', chips = 925, hand = [(2, Clubs), (7, Spades)],
           current_bet = 75, is_active = False\<rparr>],
      deck = [], community_cards = [], pot = 75, log = [], dealer_position = 1\<rparr>"


section \<open>The counter\<close>

text \<open>
  \<open>Counter xs\<close> holds every value of \<open>xs\<close> once, with the number of its occurrences.
\<close>


lemma Counter_Nil: "Counter [] = []"
  by (simp add: Counter_def)

lemma Counter_snoc: "Counter (xs @ [x]) = counter_add x (Counter xs)"
  by (simp add: Counter_def)

lemma counter_add_keys:
  "map fst (counter_add k m) = (if k \<in> set (map fst m) then map fst m else map fst m @ [k])"
  by (induction m) (force+)

lemma counter_add_distinct:
  "distinct (map fst m) \<Longrightarrow> distinct (map fst (counter_add k m))"
  by (simp add: counter_add_keys)

lemma counter_add_map_of:
  "map_of (counter_add k m) =
     (map_of m)(k \<mapsto> (case map_of m k of None \<Rightarrow> 1 | Some n \<Rightarrow> n + 1))"
  by (induction m) (auto simp: fun_eq_iff)

lemma Counter_distinct: "distinct (map fst (Counter xs))"
  by (induction xs rule: rev_induct) (simp_all add: Counter_Nil Counter_snoc counter_add_distinct)

lemma Counter_map_of:
  "map_of (Counter xs) k = (if k \<in> set xs then Some (count_list xs k) else None)"
  by (induction xs rule: rev_induct) (auto simp: Counter_Nil Counter_snoc counter_add_map_of)

lemma Counter_keys: "set (map fst (Counter xs)) = set xs"
proof (rule set_eqI)
  fix k
  show "k \<in> set (map fst (Counter xs)) \<longleftrightarrow> k \<in> set xs"
    using Counter_map_of [of xs k] map_of_eq_None_iff [of "Counter xs" k]
    by (simp split: if_splits)
qed

lemma Counter_items:
  "(k, n) \<in> set (Counter xs) \<longleftrightarrow> k \<in> set xs \<and> n = count_list xs k"
proof -
  have "map_of (Counter xs) k = Some n \<longleftrightarrow> (k, n) \<in> set (Counter xs)"
    by (rule map_of_eq_Some_iff [OF Counter_distinct])
  then show ?thesis
    using Counter_map_of [of xs k] by (cases "k \<in> set xs") auto
qed

section \<open>The selections of the evaluator never fail on a dealt hand\<close>

text \<open>
  Each \<^verbatim>\<open>[0]\<close> and each \<^verbatim>\<open>max\<close> of \<^verbatim>\<open>hand_evaluator.py\<close> is applied to a list that
  the test of its branch makes non-empty; the two kickers taken with \<^verbatim>\<open>max\<close> need a
  card outside the four of a kind, or outside the two pairs, which any hand of five or
  more cards has.
\<close>

lemma first_Inr: "xs \<noteq> [] \<Longrightarrow> first xs = Inr (hd xs)"
  by (cases xs) simp_all

lemma py_max_Inr: "xs \<noteq> [] \<Longrightarrow> \<exists>m. py_max xs = Inr m"
  by (cases xs) simp_all

lemma ranks_with_set:
  "r \<in> set (ranks_with P rc) \<longleftrightarrow> (\<exists>n. (r, n) \<in> set rc \<and> P n)"
  by (force simp: ranks_with_def)

lemma ranks_with_nonempty:
  "v \<in> set (dict_values rc) \<Longrightarrow> P v \<Longrightarrow> ranks_with P rc \<noteq> []"
  by (force simp: ranks_with_def dict_values_def filter_empty_conv)

lemma ranks_with_Counter:
  "r \<in> set (ranks_with P (Counter xs)) \<longleftrightarrow> r \<in> set xs \<and> P (count_list xs r)"
  by (simp add: ranks_with_set Counter_items)

lemma ranks_with_distinct:
  "distinct (map fst rc) \<Longrightarrow> distinct (ranks_with P rc)"
  by (simp add: ranks_with_def distinct_map_filter)

lemma ranks_with_length:
  "length (ranks_with (\<lambda>count. count = v) rc) = count_list (dict_values rc) v"
  by (induction rc) (auto simp: ranks_with_def dict_values_def)

lemma count_list_all_equal:
  "\<forall>x\<in>set xs. x = r \<Longrightarrow> count_list xs r = length xs"
  by (induction xs) auto

lemma four_of_a_kind_total:
  assumes "is_four_of_a_kind (Counter ranks)" and "length ranks \<noteq> 4"
  shows "\<exists>r. get_best_four_of_a_kind (Counter ranks) = Inr r"
proof -
  let ?fours = "ranks_with (\<lambda>count. count = 4) (Counter ranks)"
  have ne: "?fours \<noteq> []"
    using assms(1) ranks_with_nonempty [of 4 "Counter ranks" "\<lambda>count. count = 4"]
    by (simp add: is_four_of_a_kind_def)
  then have f: "first ?fours = Inr (hd ?fours)"
    by (rule first_Inr)
  have "hd ?fours \<in> set ?fours"
    using ne by simp
  then have four: "count_list ranks (hd ?fours) = 4"
    by (simp add: ranks_with_Counter)
  have "\<exists>x\<in>set ranks. x \<noteq> hd ?fours"
    using count_list_all_equal [of ranks "hd ?fours"] four assms(2) by auto
  then have "filter (\<lambda>rank. rank \<noteq> hd ?fours) (dict_keys (Counter ranks)) \<noteq> []"
    using Counter_keys [of ranks] by (auto simp: dict_keys_def filter_empty_conv)
  then obtain m where
    "py_max (filter (\<lambda>rank. rank \<noteq> hd ?fours) (dict_keys (Counter ranks))) = Inr m"
    using py_max_Inr by blast
  then show ?thesis
    by (simp add: get_best_four_of_a_kind_def f)
qed

lemma two_pair_total:
  assumes "is_two_pair (Counter ranks)" and "4 < length ranks"
  shows "\<exists>r. get_best_two_pair (Counter ranks) ranks = Inr r"
proof -
  let ?ps = "ranks_with (\<lambda>count. count = 2) (Counter ranks)"
  let ?pairs = "take 2 (sorted_reverse ?ps)"
  have d: "distinct ?pairs"
    by (simp add: sorted_reverse_def ranks_with_distinct Counter_distinct)
  have sub: "set ?pairs \<subseteq> set ?ps"
    using set_take_subset [of 2 "sorted_reverse ?ps"] by (simp add: sorted_reverse_def)
  have two: "count_list ranks p = 2" if "p \<in> set ?pairs" for p
    using that sub by (auto simp: ranks_with_Counter)
  have "length ?pairs \<le> 2"
    by simp
  then have "card (set ?pairs) \<le> 2"
    using d by (simp add: distinct_card)
  then have le: "sum (count_list ranks) (set ?pairs) \<le> 4"
    using two sum_bounded_above [of "set ?pairs" "count_list ranks" 2] by simp
  have "\<not> set ranks \<subseteq> set ?pairs"
  proof
    assume "set ranks \<subseteq> set ?pairs"
    then have "sum (count_list ranks) (set ?pairs) = length ranks"
      by (rule sum_count_set) simp
    then show False
      using le assms(2) by simp
  qed
  then have "filter (\<lambda>rank. rank \<notin> set ?pairs) ranks \<noteq> []"
    by (auto simp: filter_empty_conv)
  then obtain m where "py_max (filter (\<lambda>rank. rank \<notin> set ?pairs) ranks) = Inr m"
    using py_max_Inr by blast
  then show ?thesis
    by (simp add: get_best_two_pair_def Let_def)
qed

lemma first_ranks_with_total:
  "v \<in> set (dict_values rc) \<Longrightarrow> P v \<Longrightarrow> \<exists>r. first (ranks_with P rc) = Inr r"
  using first_Inr [OF ranks_with_nonempty] by blast

lemma two_pair_needs_four:
  assumes "is_two_pair (Counter ranks)"
  shows "4 \<le> length ranks"
proof -
  let ?ps = "ranks_with (\<lambda>count. count = 2) (Counter ranks)"
  have d: "distinct ?ps"
    by (simp add: ranks_with_distinct Counter_distinct)
  have "2 \<le> length ?ps"
    using assms by (simp add: is_two_pair_def ranks_with_length)
  then have c: "2 \<le> card (set ?ps)"
    using d by (simp add: distinct_card)
  have sub: "set ?ps \<subseteq> set ranks"
    by (auto simp: ranks_with_Counter)
  have "sum (count_list ranks) (set ?ps) = sum (\<lambda>p. 2) (set ?ps)"
    by (rule sum.cong) (simp_all add: ranks_with_Counter)
  then have "4 \<le> sum (count_list ranks) (set ?ps)"
    using c by simp
  also have "\<dots> \<le> sum (count_list ranks) (set ranks)"
    by (rule sum_mono2) (simp_all add: sub)
  also have "\<dots> = length ranks"
    by (rule sum_count_set) simp_all
  finally show ?thesis .
qed

lemma full_house_total:
  assumes "is_full_house rc"
  shows "\<exists>r. get_best_full_house rc = Inr r"
proof -
  obtain t p where "first (ranks_with (\<lambda>count. count = 3) rc) = Inr t"
    and "first (ranks_with (\<lambda>count. count = 2) rc) = Inr p"
    using assms first_ranks_with_total [of 3 rc "\<lambda>count. count = 3"]
      first_ranks_with_total [of 2 rc "\<lambda>count. count = 2"]
    by (auto simp: is_full_house_def)
  then show ?thesis
    by (simp add: get_best_full_house_def)
qed

lemma flush_total:
  assumes "is_flush (Counter (map snd all_cards))"
  shows "\<exists>r. get_best_flush all_cards = Inr r"
proof -
  obtain v where "v \<in> set (dict_values (Counter (map snd all_cards)))" "5 \<le> v"
    using assms by (auto simp: is_flush_def list_ex_iff)
  then obtain s where
    "first (ranks_with (\<lambda>count. 5 \<le> count) (Counter (map snd all_cards))) = Inr s"
    using first_ranks_with_total by blast
  then show ?thesis
    by (simp add: get_best_flush_def)
qed

lemma three_of_a_kind_total:
  assumes "is_three_of_a_kind rc"
  shows "\<exists>r. get_best_three_of_a_kind rc all_ranks = Inr r"
proof -
  obtain t where "first (ranks_with (\<lambda>count. count = 3) rc) = Inr t"
    using assms first_ranks_with_total [of 3 rc "\<lambda>count. count = 3"]
    by (auto simp: is_three_of_a_kind_def)
  then show ?thesis
    by (simp add: get_best_three_of_a_kind_def)
qed

lemma one_pair_total:
  assumes "is_one_pair rc"
  shows "\<exists>r. get_best_one_pair rc all_ranks = Inr r"
proof -
  obtain p where "first (ranks_with (\<lambda>count. count = 2) rc) = Inr p"
    using assms first_ranks_with_total [of 2 rc "\<lambda>count. count = 2"]
    by (auto simp: is_one_pair_def)
  then show ?thesis
    by (simp add: get_best_one_pair_def)
qed

lemma ranked_Inr: "r = Inr t \<Longrightarrow> ranked n r = Inr (n, t)"
  by (simp add: ranked_def)

section \<open>Hands with one triple and one pair\<close>

text \<open>
  A straight, and so a straight flush, needs five distinct ranks; a hand of at most seven
  cards that holds a triple and a pair has at most four.
\<close>

lemma length_sorted_set: "length (sorted_set xs) = card (set xs)"
  by (simp add: sorted_set_def length_remdups_card_conv)

lemma is_straight_needs_five: "is_straight xs \<Longrightarrow> 5 \<le> card (set xs)"
  by (auto simp: is_straight_def Let_def length_sorted_set split: if_splits)

lemma is_straight_flush_needs_five:
  assumes "is_straight_flush all_cards"
  shows "5 \<le> card (set (map fst all_cards))"
proof -
  obtain s where "is_straight (map fst (filter (\<lambda>card. snd card = s) all_cards))"
    using assms by (auto simp: is_straight_flush_def Let_def list_ex_iff)
  then have "5 \<le> card (set (map fst (filter (\<lambda>card. snd card = s) all_cards)))"
    by (rule is_straight_needs_five)
  also have "\<dots> \<le> card (set (map fst all_cards))"
    by (rule card_mono) auto
  finally show ?thesis .
qed

lemma distinct_singleton: "distinct xs \<Longrightarrow> set xs = {a} \<Longrightarrow> xs = [a]"
  by (cases xs) (auto simp: subset_singleton_iff dest!: subset_singletonD)

lemma ranks_with_unique:
  assumes "r \<in> set xs" and "P (count_list xs r)"
    and "\<And>q. q \<in> set xs \<Longrightarrow> P (count_list xs q) \<Longrightarrow> q = r"
  shows "ranks_with P (Counter xs) = [r]"
proof (rule distinct_singleton)
  show "distinct (ranks_with P (Counter xs))"
    by (simp add: ranks_with_distinct Counter_distinct)
  show "set (ranks_with P (Counter xs)) = {r}"
  proof (rule set_eqI)
    fix q
    have "q \<in> set (ranks_with P (Counter xs)) \<longleftrightarrow> q \<in> set xs \<and> P (count_list xs q)"
      by (rule ranks_with_Counter)
    then show "q \<in> set (ranks_with P (Counter xs)) \<longleftrightarrow> q \<in> {r}"
      using assms(1,2) assms(3) [of q] by blast
  qed
qed

lemma triple_and_pair_ranks:
  assumes "count_list xs t = 3" and "count_list xs p = 2"
  shows "card (set xs) + 3 \<le> length xs"
proof -
  have tp: "t \<in> set xs" "p \<in> set xs" "t \<noteq> p"
    using assms count_notin [of t xs] count_notin [of p xs] by auto
  have "length xs = sum (count_list xs) (set xs)"
    by (rule sum_count_set [symmetric]) simp_all
  also have "\<dots> = sum (count_list xs) {t, p} + sum (count_list xs) (set xs - {t, p})"
    using sum.subset_diff [of "{t, p}" "set xs" "count_list xs"] tp by simp
  also have "sum (count_list xs) {t, p} = 5"
    using tp assms by simp
  finally have len: "length xs = 5 + sum (count_list xs) (set xs - {t, p})" .
  have one: "1 \<le> count_list xs r" if "r \<in> set xs - {t, p}" for r
  proof -
    have "count_list xs r \<noteq> 0"
      using that by (simp add: count_list_0_iff)
    then show ?thesis by simp
  qed
  have "sum (\<lambda>r. 1) (set xs - {t, p}) \<le> sum (count_list xs) (set xs - {t, p})"
    by (rule sum_mono) (rule one)
  moreover have "card (set xs - {t, p}) = card (set xs) - 2"
    using tp by (simp add: card_Diff_subset)
  moreover have "2 \<le> card (set xs)"
    using tp card_mono [of "set xs" "{t, p}"] by simp
  ultimately show ?thesis
    using len by simp
qed


lemma dict_values_Counter:
  "v \<in> set (dict_values (Counter xs)) \<longleftrightarrow> (\<exists>r\<in>set xs. v = count_list xs r)"
proof -
  have "v \<in> set (dict_values (Counter xs)) \<longleftrightarrow> (\<exists>k. (k, v) \<in> set (Counter xs))"
    by (force simp: dict_values_def)
  also have "\<dots> \<longleftrightarrow> (\<exists>r\<in>set xs. v = count_list xs r)"
    unfolding Counter_items by blast
  finally show ?thesis .
qed

section \<open>Straights: the wheel, the first run found, and the slice of a run\<close>

text \<open>
  The slice \<^verbatim>\<open>unique_ranks[i+4:i-1:-1]\<close> that \<^verbatim>\<open>get_best_straight\<close> returns for a run
  found at index \<open>i\<close>: at \<open>i = 0\<close> its stop bound is \<open>-1\<close>, which Python reads as the last
  index of the list, so the slice is empty.
\<close>

lemma py_slice_rev_stop_minus_one:
  "4 < length xs \<Longrightarrow> py_slice_rev xs 4 (- 1) = []"
  by (auto simp: py_slice_rev_def adjust_index_def Let_def)

lemma first_window_bound:
  "first_window u = Some i \<Longrightarrow> i + 4 < length u"
  by (auto simp: first_window_def find_Some_iff)

lemma get_best_straight_run_at_0:
  assumes "first_window (sorted_set ranks) = Some 0"
  shows "get_best_straight ranks = []"
proof -
  have "4 < length (sorted_set ranks)"
    using first_window_bound [OF assms] by simp
  then show ?thesis
    using assms by (simp add: get_best_straight_def py_slice_rev_stop_minus_one)
qed

text \<open>
  C1. The wheel \<open>{14,2,3,4,5}\<close> in mixed suits is a Straight (category 5) whose tie-break
  leads with 5 and, compared element by element, is strictly below the tie-break of a
  \<open>{2,3,4,5,6}\<close> straight, which leads with 6. The first half holds. For the six-high
  straight the run is found at index 0, the slice \<^verbatim>\<open>unique_ranks[4:-1:-1]\<close> is empty,
  and the empty tie-break compares below the wheel's: the wheel is ranked above the
  six-high straight. The same holds with two more community cards on the table.
\<close>

theorem wheel_outranks_six_high_straight:
  "evaluate_hand [(14, Hearts), (2, Clubs)] [(3, Diamonds), (4, Spades), (5, Hearts)]
     = Inr (5, [5, 4, 3, 2, 14])
   \<and> evaluate_hand [(2, Hearts), (3, Clubs)] [(4, Diamonds), (5, Spades), (6, Hearts)]
     = Inr (5, [])
   \<and> evaluate_hand [(14, Hearts), (2, Clubs)]
       [(3, Diamonds), (4, Spades), (5, Hearts), (9, Clubs), (11, Diamonds)]
     = Inr (5, [5, 4, 3, 2, 14])
   \<and> evaluate_hand [(2, Hearts), (3, Clubs)]
       [(4, Diamonds), (5, Spades), (6, Hearts), (9, Clubs), (11, Diamonds)]
     = Inr (5, [])
   \<and> list_gt [5, 4, 3, 2, 14] []
   \<and> \<not> list_gt [] [5, 4, 3, 2, 14]"
  by code_simp

text \<open>
  C2. When the ranks hold a run of five consecutive values, the straight's tie-break is
  led by the top card of the highest such run. The scan of \<^verbatim>\<open>get_best_straight\<close> goes
  upwards and returns at the first run it meets, the lowest one: with the distinct ranks
  \<open>{2,4,5,6,7,8,9}\<close> the tie-break is led by 8, where the highest run ends at 9.
\<close>

theorem straight_tie_break_is_lowest_run:
  "evaluate_hand [(2, Clubs), (4, Diamonds)]
     [(5, Hearts), (6, Spades), (7, Clubs), (8, Diamonds), (9, Hearts)]
     = Inr (5, [8, 7, 6, 5, 4])"
  by code_simp

text \<open>
  C3. The evaluation does not depend on the order in which the cards are supplied. The
  pair of a full house is the first rank of count two in the counter, that is the one
  dealt first: the same seven cards, with the two pairs of the community cards swapped,
  give the tie-breaks \<open>[5, 9]\<close> and \<open>[5, 2]\<close>.
\<close>

theorem full_house_depends_on_card_order:
  "evaluate_hand [(5, Hearts), (5, Clubs)]
     [(5, Spades), (9, Clubs), (9, Hearts), (2, Diamonds), (2, Spades)] = Inr (7, [5, 9])
   \<and> evaluate_hand [(5, Hearts), (5, Clubs)]
     [(5, Spades), (2, Diamonds), (2, Spades), (9, Clubs), (9, Hearts)] = Inr (7, [5, 2])
   \<and> set [(5, Spades), (9, Clubs), (9, Hearts), (2, Diamonds), (2, Spades)]
     = set [(5::int, Spades), (2, Diamonds), (2, Spades), (9, Clubs), (9, Hearts)]
   \<and> distinct ([(5::int, Hearts), (5, Clubs)]
       @ [(5, Spades), (9, Clubs), (9, Hearts), (2, Diamonds), (2, Spades)])"
  by code_simp

text \<open>
  For a run found at an index \<open>i > 0\<close> the slice is the five ranks of the run, highest
  first; so a tie-break of \<^verbatim>\<open>get_best_straight\<close> that is not empty is the wheel or a
  descending run of five ranks of the hand.
\<close>

lemma upto_five: "[a..a + 4] = [a, a + 1, a + 2, a + 3, a + 4]"
proof -
  have "[a..a + 4] = a # [a + 1..a + 4]" by (simp add: upto_rec1)
  also have "[a + 1..a + 4] = (a + 1) # [a + 2..a + 4]" by (simp add: upto_rec1)
  also have "[a + 2..a + 4] = (a + 2) # [a + 3..a + 4]" by (simp add: upto_rec1)
  also have "[a + 3..a + 4] = (a + 3) # [a + 4..a + 4]" by (simp add: upto_rec1)
  also have "[a + 4..a + 4] = [a + 4]" by simp
  finally show ?thesis .
qed

lemma straight_window_values:
  assumes "straight_window u i" and "i + 4 < length u"
  shows "[u ! i, u ! (i + 1), u ! (i + 2), u ! (i + 3), u ! (i + 4)]
       = [u ! i, u ! i + 1, u ! i + 2, u ! i + 3, u ! i + 4]"
proof -
  have w: "take 5 (drop i u) = [u ! i, u ! i + 1, u ! i + 2, u ! i + 3, u ! i + 4]"
    using assms(1) upto_five [of "u ! i"]
    by (simp add: straight_window_def py_slice_def py_range_def add.commute)
  have "take 5 (drop i u) ! k = u ! (i + k)" if "k < 5" for k
    using that assms(2) by simp
  from this [of 0] this [of 1] this [of 2] this [of 3] this [of 4] show ?thesis
    unfolding w by simp
qed

lemma py_slice_rev_run:
  assumes "0 < i" and "i + 4 < length u"
  shows "py_slice_rev u (int i + 4) (int i - 1)
       = [u ! (i + 4), u ! (i + 3), u ! (i + 2), u ! (i + 1), u ! i]"
proof -
  have s: "adjust_index (int (length u)) (int i + 4) = int i + 4"
    using assms by (simp add: adjust_index_def)
  have e: "adjust_index (int (length u)) (int i - 1) = int i - 1"
    using assms by (simp add: adjust_index_def)
  have "map (\<lambda>k. u ! nat k) (rev [int i..int i + 4])
      = [u ! (i + 4), u ! (i + 3), u ! (i + 2), u ! (i + 1), u ! i]"
    by (simp add: upto_five nat_add_distrib)
  then show ?thesis
    by (simp add: py_slice_rev_def Let_def s e)
qed


lemma set_sorted_set: "set (sorted_set xs) = set xs"
  by (simp add: sorted_set_def)

lemma first_window_holds: "first_window u = Some i \<Longrightarrow> straight_window u i"
  by (auto simp: first_window_def find_Some_iff)

lemma get_best_straight_shape:
  assumes "get_best_straight ranks \<noteq> []"
  shows "set (get_best_straight ranks) \<subseteq> set ranks
       \<and> (get_best_straight ranks = [5, 4, 3, 2, 14]
          \<or> (\<exists>t. get_best_straight ranks = [t, t - 1, t - 2, t - 3, t - 4]))"
proof (cases "first_window (sorted_set ranks)")
  case None
  then have "get_best_straight ranks = [5, 4, 3, 2, 14]" and "wheel (sorted_set ranks)"
    using assms by (auto simp: get_best_straight_def split: if_splits)
  then show ?thesis
    by (simp add: wheel_def set_sorted_set)
next
  case (Some i)
  define u where "u = sorted_set ranks"
  have b: "i + 4 < length u" and w: "straight_window u i"
    using Some first_window_bound first_window_holds by (auto simp: u_def)
  have i: "0 < i"
    using assms Some get_best_straight_run_at_0 [of ranks] by (cases i) auto
  have "get_best_straight ranks = [u ! (i + 4), u ! (i + 3), u ! (i + 2), u ! (i + 1), u ! i]"
    using Some py_slice_rev_run [OF i b] by (simp add: get_best_straight_def u_def Let_def)
  moreover have "u ! (i + k) \<in> set ranks" if "k < 5" for k
  proof -
    have "u ! (i + k) \<in> set u"
      using that b by (intro nth_mem) simp
    then show ?thesis by (simp add: u_def set_sorted_set)
  qed
  from this [of 0] this [of 1] this [of 2] this [of 3] this [of 4]
  have "set [u ! (i + 4), u ! (i + 3), u ! (i + 2), u ! (i + 1), u ! i] \<subseteq> set ranks"
    by simp
  moreover have "[u ! (i + 4), u ! (i + 3), u ! (i + 2), u ! (i + 1), u ! i]
      = [u ! i + 4, u ! i + 4 - 1, u ! i + 4 - 2, u ! i + 4 - 3, u ! i + 4 - 4]"
    using straight_window_values [OF w b] by simp
  ultimately show ?thesis
    by (metis (no_types))
qed

text \<open>
  The distinct ranks in ascending order hold a run of five as five neighbours, so the
  scan finds a window whenever the ranks hold a run, and the first window it finds is
  the lowest run. When that run does not start at the lowest rank held, the slice is the
  run, highest rank first; when the ranks hold no run but the wheel, the wheel is
  returned.
\<close>

lemma strict_sorted_set: "sorted_wrt (<) (sorted_set xs)"
  by (simp add: sorted_set_def strict_sorted_iff)

lemma strict_sorted_nth_less:
  assumes "sorted_wrt (<) (u :: int list)" and "i < length u" and "j < length u"
  shows "u ! i < u ! j \<longleftrightarrow> i < j"
proof
  assume "i < j"
  then show "u ! i < u ! j"
    using assms by (simp add: sorted_wrt_nth_less)
next
  assume l: "u ! i < u ! j"
  show "i < j"
  proof (rule ccontr)
    assume "\<not> i < j"
    then have "j = i \<or> j < i" by arith
    then have "u ! j \<le> u ! i"
      using assms sorted_wrt_nth_less [of "(<)" u j i] by auto
    then show False using l by simp
  qed
qed

lemma next_in_strict_sorted:
  assumes "sorted_wrt (<) (u :: int list)" and "i < length u" and "a + 1 \<in> set u"
    and "u ! i = a"
  shows "Suc i < length u \<and> u ! Suc i = a + 1"
proof -
  obtain j where j: "j < length u" "u ! j = a + 1"
    using assms(3) by (auto simp: in_set_conv_nth)
  have "u ! i < u ! j"
    using assms(4) j by simp
  then have ij: "i < j"
    using strict_sorted_nth_less [OF assms(1,2) j(1)] by simp
  then have s: "Suc i < length u"
    using j(1) by simp
  have "u ! i < u ! Suc i"
    using strict_sorted_nth_less [OF assms(1,2) s] by simp
  moreover have "\<not> u ! Suc i < u ! j" if "Suc i = j"
    using that by simp
  moreover have "u ! Suc i < u ! j" if "Suc i < j"
    using strict_sorted_nth_less [OF assms(1) s j(1)] that by simp
  ultimately have "u ! Suc i = a + 1"
    using assms(4) j(2) ij by (cases "Suc i = j") auto
  then show ?thesis using s by simp
qed

lemma take_five_nth:
  assumes "i + 4 < length u"
  shows "take 5 (drop i u) = [u ! i, u ! (i + 1), u ! (i + 2), u ! (i + 3), u ! (i + 4)]"
proof -
  have "length (take 5 (drop i u)) = 5"
    using assms by simp
  moreover have "take 5 (drop i u) ! k = u ! (i + k)" if "k < 5" for k
    using that assms by simp
  ultimately show ?thesis
    by (auto simp: list_eq_iff_nth_eq less_Suc_eq numeral_3_eq_3 numeral_2_eq_2
        eval_nat_numeral)
qed

lemma run_window:
  assumes "sorted_wrt (<) (u :: int list)" and "i < length u" and "u ! i = a"
    and "run_in a (set u)"
  shows "i + 4 < length u \<and> straight_window u i"
proof -
  have r: "a + 1 \<in> set u" "a + 2 \<in> set u" "a + 3 \<in> set u" "a + 4 \<in> set u"
    using assms(4) by (simp_all add: run_in_def)
  have 1: "Suc i < length u \<and> u ! Suc i = a + 1"
    using next_in_strict_sorted [OF assms(1,2) r(1) assms(3)] .
  have 2: "Suc (Suc i) < length u \<and> u ! Suc (Suc i) = a + 2"
    using next_in_strict_sorted [of u "Suc i" "a + 1"] assms(1) 1 r(2) by (simp add: add.commute)
  have 3: "Suc (Suc (Suc i)) < length u \<and> u ! Suc (Suc (Suc i)) = a + 3"
    using next_in_strict_sorted [of u "Suc (Suc i)" "a + 2"] assms(1) 2 r(3) by (simp add: add.commute)
  have 4: "Suc (Suc (Suc (Suc i))) < length u \<and> u ! Suc (Suc (Suc (Suc i))) = a + 4"
    using next_in_strict_sorted [of u "Suc (Suc (Suc i))" "a + 3"] assms(1) 3 r(4) by (simp add: add.commute)
  have b: "i + 4 < length u"
    using 4 by simp
  have "[u ! i, u ! (i + 1), u ! (i + 2), u ! (i + 3), u ! (i + 4)]
      = [a, a + 1, a + 2, a + 3, a + 4]"
    using assms(3) 1 2 3 4 by (simp add: eval_nat_numeral)
  then have "straight_window u i"
    using take_five_nth [OF b] upto_five [of a] assms(3)
    by (simp add: straight_window_def py_slice_def py_range_def add.commute)
  then show ?thesis using b by simp
qed

lemma window_run:
  assumes "straight_window u i" and "i + 4 < length u"
  shows "run_in (u ! i) (set u)"
proof -
  have e: "[u ! i, u ! (i + 1), u ! (i + 2), u ! (i + 3), u ! (i + 4)]
      = [u ! i, u ! i + 1, u ! i + 2, u ! i + 3, u ! i + 4]"
    using assms by (rule straight_window_values)
  have "u ! (i + k) \<in> set u" if "k < 5" for k
    using that assms(2) by (intro nth_mem) simp
  from this [of 0] this [of 1] this [of 2] this [of 3] this [of 4]
  have "set [u ! i, u ! (i + 1), u ! (i + 2), u ! (i + 3), u ! (i + 4)] \<subseteq> set u"
    by simp
  then show ?thesis
    unfolding e by (simp add: run_in_def)
qed


lemma find_upt_Some:
  assumes "find P [0..<n] = Some i"
  shows "i < n \<and> P i \<and> (\<forall>j<i. \<not> P j)"
proof -
  obtain k where k: "k < n" "P ([0..<n] ! k)" "i = [0..<n] ! k"
    "\<forall>j<k. \<not> P ([0..<n] ! j)"
    using assms by (auto simp: find_Some_iff)
  then have "i = k" by simp
  then show ?thesis
    using k by auto
qed

lemma first_window_exists:
  assumes "sorted_wrt (<) (u :: int list)" and "run_in a (set u)"
  shows "\<exists>i. first_window u = Some i"
proof -
  have "a \<in> set u"
    using assms(2) by (simp add: run_in_def)
  then obtain i where i: "i < length u" "u ! i = a"
    by (auto simp: in_set_conv_nth)
  then have "i + 4 < length u" and "straight_window u i"
    using run_window [OF assms(1) i assms(2)] by simp_all
  then have "i \<in> set [0..<length u - 4]" and "straight_window u i"
    by simp_all
  then have "first_window u \<noteq> None"
    unfolding first_window_def find_None_iff by blast
  then show ?thesis by auto
qed

lemma first_window_lowest:
  assumes "sorted_wrt (<) (u :: int list)" and "run_in a (set u)"
    and "\<And>b. run_in b (set u) \<Longrightarrow> a \<le> b"
  shows "\<exists>i. first_window u = Some i \<and> u ! i = a \<and> i + 4 < length u"
proof -
  obtain i where f: "first_window u = Some i"
    using first_window_exists [OF assms(1,2)] by blast
  then have w: "straight_window u i" and b: "i + 4 < length u"
    using first_window_holds first_window_bound by blast+
  have first: "\<not> straight_window u j" if "j < i" for j
    using f find_upt_Some [of "straight_window u" "length u - 4" i] that
    by (simp add: first_window_def)
  have "a \<in> set u"
    using assms(2) by (simp add: run_in_def)
  then obtain k where k: "k < length u" "u ! k = a"
    by (auto simp: in_set_conv_nth)
  then have "straight_window u k"
    using run_window [OF assms(1) k assms(2)] by simp
  then have "\<not> k < i"
    using first by blast
  then have "\<not> u ! k < u ! i"
    using strict_sorted_nth_less [OF assms(1) k(1), of i] b by simp
  moreover have "a \<le> u ! i"
    using assms(3) window_run [OF w b] by simp
  ultimately have "u ! i = a"
    using k(2) by simp
  then show ?thesis
    using f b by simp
qed

lemma get_best_straight_lowest_run:
  assumes "run_in a (set ranks)"
    and "\<And>b. run_in b (set ranks) \<Longrightarrow> a \<le> b"
    and "r \<in> set ranks" and "r < a"
  shows "get_best_straight ranks = [a + 4, a + 3, a + 2, a + 1, a]"
proof -
  define u where "u = sorted_set ranks"
  have s: "sorted_wrt (<) u" and set: "set u = set ranks"
    by (simp_all add: u_def strict_sorted_set set_sorted_set)
  obtain i where f: "first_window u = Some i" and a: "u ! i = a" and b: "i + 4 < length u"
    using first_window_lowest [OF s, of a] assms(1,2) set by auto
  have w: "straight_window u i"
    using f by (rule first_window_holds)
  have "r \<in> set u"
    using assms(3) set by simp
  then obtain j where j: "j < length u" "u ! j = r"
    by (auto simp: in_set_conv_nth)
  then have "j < i"
    using strict_sorted_nth_less [OF s j(1), of i] assms(4) a b by simp
  then have i: "0 < i" by simp
  have "get_best_straight ranks = [u ! (i + 4), u ! (i + 3), u ! (i + 2), u ! (i + 1), u ! i]"
    using f py_slice_rev_run [OF i b] by (simp add: get_best_straight_def u_def Let_def)
  then show ?thesis
    using straight_window_values [OF w b] a by simp
qed

lemma get_best_straight_wheel:
  assumes "{14, 2, 3, 4, 5} \<subseteq> set ranks" and "\<And>b. \<not> run_in b (set ranks)"
  shows "get_best_straight ranks = [5, 4, 3, 2, 14]"
proof -
  define u where "u = sorted_set ranks"
  have set: "set u = set ranks"
    by (simp add: u_def set_sorted_set)
  have "first_window u = None"
  proof (cases "first_window u")
    case None
    then show ?thesis .
  next
    case (Some i)
    then have "run_in (u ! i) (set u)"
      using window_run first_window_holds first_window_bound by blast
    then show ?thesis
      using assms(2) set by simp
  qed
  then show ?thesis
    using assms(1) set by (simp add: get_best_straight_def u_def wheel_def)
qed

lemma is_straight_run:
  assumes "run_in a (set ranks)"
  shows "is_straight ranks"
proof -
  have s: "sorted_wrt (<) (sorted_set ranks)" and r: "run_in a (set (sorted_set ranks))"
    using assms by (simp_all add: strict_sorted_set set_sorted_set)
  obtain i where f: "first_window (sorted_set ranks) = Some i"
    using first_window_exists [OF s r] by blast
  then have "i + 4 < length (sorted_set ranks)"
    by (rule first_window_bound)
  then show ?thesis
    using f by (simp add: is_straight_def)
qed

lemma is_straight_wheel:
  assumes "{14, 2, 3, 4, 5} \<subseteq> set ranks"
  shows "is_straight ranks"
proof -
  have "card {14, 2, 3, 4, 5 :: int} \<le> card (set ranks)"
    using assms by (intro card_mono) simp_all
  then have "5 \<le> length (sorted_set ranks)"
    by (simp add: length_sorted_set)
  then show ?thesis
    using assms by (simp add: is_straight_def wheel_def set_sorted_set)
qed

lemma is_straight_flush_suit:
  assumes "5 \<le> count_list (map snd cards) s" and "is_straight (ranks_of_suit s cards)"
  shows "is_straight_flush cards"
proof -
  have "count_list (map snd cards) s \<noteq> 0"
    using assms(1) by simp
  then have "s \<in> set (map snd cards)"
    by (simp only: count_list_0_iff) simp
  then have "(s, count_list (map snd cards) s) \<in> set (Counter (map snd cards))"
    by (simp add: Counter_items)
  then show ?thesis
    using assms unfolding is_straight_flush_def Let_def list_ex_iff ranks_of_suit_def
    by (intro bexI [of _ "(s, count_list (map snd cards) s)"]) simp_all
qed

lemma ranks_of_suit_subset: "set (ranks_of_suit s cards) \<subseteq> set (map fst cards)"
  by (auto simp: ranks_of_suit_def)

lemma evaluate_hand_returns:
  assumes "length hole = 2" and "length community \<in> {0, 3, 4, 5}"
  shows "\<exists>category tie_break. evaluate_hand hole community = Inr (category, tie_break)"
proof -
  define all_cards where "all_cards = hole @ community"
  define ranks where "ranks = map fst all_cards"
  define rc where "rc = Counter ranks"
  have len: "length ranks = 2 \<or> 4 < length ranks"
    using assms by (auto simp: ranks_def all_cards_def)
  have four: "\<exists>r. get_best_four_of_a_kind rc = Inr r" if "is_four_of_a_kind rc"
    unfolding rc_def using that len by (intro four_of_a_kind_total) (auto simp: rc_def)
  have two: "\<exists>r. get_best_two_pair rc ranks = Inr r" if "is_two_pair rc"
    unfolding rc_def using that len two_pair_needs_four [of ranks]
    by (intro two_pair_total) (auto simp: rc_def)
  have flush: "\<exists>r. get_best_flush all_cards = Inr r"
    if "is_flush (Counter (map snd all_cards))"
    using that by (rule flush_total)
  have "\<exists>category tie_break.
      (if is_straight_flush all_cards then ranked 9 (Inr (get_best_straight ranks))
       else if is_four_of_a_kind rc then ranked 8 (get_best_four_of_a_kind rc)
       else if is_full_house rc then ranked 7 (get_best_full_house rc)
       else if is_flush (Counter (map snd all_cards)) then ranked 6 (get_best_flush all_cards)
       else if is_straight ranks then ranked 5 (Inr (get_best_straight ranks))
       else if is_three_of_a_kind rc then ranked 4 (get_best_three_of_a_kind rc ranks)
       else if is_two_pair rc then ranked 3 (get_best_two_pair rc ranks)
       else if is_one_pair rc then ranked 2 (get_best_one_pair rc ranks)
       else ranked 1 (Inr (get_high_card ranks))) = Inr (category, tie_break)"
    using four two flush full_house_total [of rc] three_of_a_kind_total [of rc ranks]
      one_pair_total [of rc ranks]
    by (auto simp: ranked_def)
  then show ?thesis
    unfolding evaluate_hand_def Let_def rc_def ranks_def all_cards_def .
qed

text \<open>
  C10. With two hole cards and 0, 3, 4 or 5 community cards, \<^verbatim>\<open>evaluate_hand\<close> returns
  a (category, tie-break) pair: no \<^verbatim>\<open>IndexError\<close> and no \<^verbatim>\<open>ValueError\<close> is raised in
  any branch. (The total of four cards, which no street deals, is what the hypothesis
  excludes: there the kicker of two pairs or of four of a kind is the \<^verbatim>\<open>max\<close> of an
  empty list.) No assumption on duplicate cards is needed.
\<close>

theorem evaluate_hand_total:
  assumes "length hole = 2" and "length community \<in> {0, 3, 4, 5}"
  shows "\<exists>category tie_break. evaluate_hand hole community = Inr (category, tie_break)"
  using assms by (rule evaluate_hand_returns)

theorem evaluate_hand_total_witness:
  "length [(14::int, Hearts), (13, Hearts)] = 2
   \<and> length [(12::int, Hearts), (11, Hearts), (10, Hearts), (2, Clubs), (3, Spades)] \<in> {0, 3, 4, 5}
   \<and> (\<exists>category tie_break.
         evaluate_hand [(14, Hearts), (13, Hearts)]
           [(12, Hearts), (11, Hearts), (10, Hearts), (2, Clubs), (3, Spades)]
         = Inr (category, tie_break))"
  using evaluate_hand_total [of "[(14, Hearts), (13, Hearts)]"
      "[(12, Hearts), (11, Hearts), (10, Hearts), (2, Clubs), (3, Spades)]"]
  by simp

text \<open>
  Where a hand of at most seven cards has one triple, one pair and otherwise single
  ranks, the first triple and the first pair of the counter are the only ones, and the
  hand is a full house of that triple and that pair.
\<close>

lemma full_house_single_triple_and_pair:
  assumes "length (hole @ community) \<le> 7"
    and "count_list (map fst (hole @ community)) t = 3"
    and "count_list (map fst (hole @ community)) p = 2"
    and "\<forall>r\<in>set (map fst (hole @ community)).
           r = t \<or> r = p \<or> count_list (map fst (hole @ community)) r = 1"
  shows "evaluate_hand hole community = Inr (7, [t, p])"
proof -
  define all_cards where "all_cards = hole @ community"
  define ranks where "ranks = map fst all_cards"
  define rc where "rc = Counter ranks"
  have t: "count_list ranks t = 3" and p: "count_list ranks p = 2"
    and rest: "\<And>r. r \<in> set ranks \<Longrightarrow> r = t \<or> r = p \<or> count_list ranks r = 1"
    and len: "length ranks \<le> 7"
    using assms by (simp_all add: ranks_def all_cards_def)
  have mem: "t \<in> set ranks" "p \<in> set ranks" "t \<noteq> p"
    using t p count_notin [of t ranks] count_notin [of p ranks] by auto
  have "card (set ranks) \<le> 4"
    using triple_and_pair_ranks [OF t p] len by simp
  then have sf: "\<not> is_straight_flush all_cards"
    using is_straight_flush_needs_five [of all_cards] by (auto simp: ranks_def)
  have items: "v \<in> set (dict_values rc) \<longleftrightarrow> (\<exists>r\<in>set ranks. v = count_list ranks r)" for v
    unfolding rc_def by (rule dict_values_Counter)
  have four: "\<not> is_four_of_a_kind rc"
  proof
    assume "is_four_of_a_kind rc"
    then obtain r where "r \<in> set ranks" and "count_list ranks r = 4"
      by (auto simp: is_four_of_a_kind_def items)
    then show False
      using rest [of r] t p by auto
  qed
  have full: "is_full_house rc"
    using mem t p by (auto simp: is_full_house_def items)
  have three: "ranks_with (\<lambda>count. count = 3) rc = [t]"
    unfolding rc_def using mem(1) t
  proof (rule ranks_with_unique)
    fix q assume "q \<in> set ranks" and "count_list ranks q = 3"
    then show "q = t" using rest [of q] p by auto
  qed
  have pair: "ranks_with (\<lambda>count. count = 2) rc = [p]"
    unfolding rc_def using mem(2) p
  proof (rule ranks_with_unique)
    fix q assume "q \<in> set ranks" and "count_list ranks q = 2"
    then show "q = p" using rest [of q] t by auto
  qed
  have "get_best_full_house rc = Inr [t, p]"
    by (simp add: get_best_full_house_def three pair)
  then have "(if is_straight_flush all_cards then ranked 9 (Inr (get_best_straight ranks))
       else if is_four_of_a_kind rc then ranked 8 (get_best_four_of_a_kind rc)
       else if is_full_house rc then ranked 7 (get_best_full_house rc)
       else if is_flush (Counter (map snd all_cards)) then ranked 6 (get_best_flush all_cards)
       else if is_straight ranks then ranked 5 (Inr (get_best_straight ranks))
       else if is_three_of_a_kind rc then ranked 4 (get_best_three_of_a_kind rc ranks)
       else if is_two_pair rc then ranked 3 (get_best_two_pair rc ranks)
       else if is_one_pair rc then ranked 2 (get_best_one_pair rc ranks)
       else ranked 1 (Inr (get_high_card ranks))) = Inr (7, [t, p])"
    using sf four full by (simp add: ranked_def)
  then show ?thesis
    unfolding evaluate_hand_def Let_def rc_def ranks_def all_cards_def .
qed

text \<open>
  C4. A hand holding a rank of count at least 3 and another rank of count at least 2 is
  a FullHouse whose tie-break is [the highest rank of count at least 3, the highest
  other rank of count at least 2]; of two triples the lower one plays as the pair. The
  evaluator does neither. \<^verbatim>\<open>is_full_house\<close> asks for a count of exactly 3 and a count of
  exactly 2, so the two triples \<open>5,5,5,9,9,9\<close> with a \<open>2\<close> are ThreeOfAKind \<open>(4, [5, 9, 9])\<close>
  where the claim gives FullHouse \<open>[9, 5]\<close>. \<^verbatim>\<open>get_best_full_house\<close> takes the first pair
  of the counter, the one dealt first: \<open>2,2\<close> in the hole with \<open>5,5,5,9,9\<close> on the table is
  FullHouse \<open>[5, 2]\<close> where the claim gives \<open>[5, 9]\<close>.
\<close>

theorem full_house_misses_highest_triple_and_pair:
  "evaluate_hand [(5, Hearts), (5, Clubs)]
     [(5, Spades), (9, Diamonds), (9, Spades), (9, Clubs), (2, Hearts)] = Inr (4, [5, 9, 9])
   \<and> evaluate_hand [(2, Hearts), (2, Clubs)]
     [(5, Hearts), (5, Clubs), (5, Spades), (9, Diamonds), (9, Spades)] = Inr (7, [5, 2])
   \<and> distinct ([(5::int, Hearts), (5, Clubs)]
       @ [(5, Spades), (9, Diamonds), (9, Spades), (9, Clubs), (2, Hearts)])
   \<and> distinct ([(2::int, Hearts), (2, Clubs)]
       @ [(5, Hearts), (5, Clubs), (5, Spades), (9, Diamonds), (9, Spades)])"
  by code_simp

text \<open>
  C5, as the code has it. The claim gives the tie-break of a straight flush as the
  one-element list \<open>[topCard]\<close>, \<open>[14]\<close> for the royal flush in hearts of the example.
  The evaluator returns the five ranks of the straight, highest first.
\<close>

theorem royal_flush_tie_break_has_five_ranks:
  "evaluate_hand [(14, Hearts), (13, Hearts)]
     [(12, Hearts), (11, Hearts), (10, Hearts), (2, Clubs), (3, Spades)]
     = Inr (9, [14, 13, 12, 11, 10])
   \<and> evaluate_hand [(14, Hearts), (13, Hearts)]
     [(12, Hearts), (11, Hearts), (10, Hearts), (2, Clubs), (3, Spades)] \<noteq> Inr (9, [14])"
  by code_simp

text \<open>
  C5, amended. Let \<open>s\<close> be a suit of which the hand holds five cards or more. If the
  highest straight within that suit is the run \<open>a .. a+4\<close>, no lower run of five
  consecutive ranks is found among the ranks of all suits, and the hand holds a card
  below \<open>a\<close>, then the hand is a StraightFlush (category 9) and its tie-break is the five
  ranks of that straight, highest first, led by its top card \<open>a+4\<close>. If the suit holds the
  wheel \<open>14, 2, 3, 4, 5\<close> and the ranks of the hand hold no run of five consecutive values,
  the hand is a StraightFlush with tie-break \<open>[5, 4, 3, 2, 14]\<close>, led by 5. For the example
  of the claim the result is \<open>(9, [14, 13, 12, 11, 10])\<close>.
\<close>

theorem straight_flush_tie_break:
  assumes "5 \<le> count_list (map snd (hole @ community)) s"
  shows "(run_in a (set (ranks_of_suit s (hole @ community)))
          \<and> (\<forall>b. run_in b (set (ranks_of_suit s (hole @ community))) \<longrightarrow> b \<le> a)
          \<and> (\<forall>b. run_in b (set (map fst (hole @ community))) \<longrightarrow> a \<le> b)
          \<and> (\<exists>r\<in>set (map fst (hole @ community)). r < a)
         \<longrightarrow> evaluate_hand hole community = Inr (9, [a + 4, a + 3, a + 2, a + 1, a]))
       \<and> ({14, 2, 3, 4, 5} \<subseteq> set (ranks_of_suit s (hole @ community))
          \<and> (\<forall>b. \<not> run_in b (set (map fst (hole @ community))))
         \<longrightarrow> evaluate_hand hole community = Inr (9, [5, 4, 3, 2, 14]))"
proof (intro conjI impI)
  define cards where "cards = hole @ community"
  have sub: "set (ranks_of_suit s cards) \<subseteq> set (map fst cards)"
    by (rule ranks_of_suit_subset)
  have eval: "evaluate_hand hole community = Inr (9, get_best_straight (map fst cards))"
    if "is_straight (ranks_of_suit s cards)"
  proof -
    have "is_straight_flush cards"
      using assms that unfolding cards_def by (rule is_straight_flush_suit)
    then show ?thesis
      by (simp add: evaluate_hand_def Let_def ranked_def cards_def)
  qed
  {
    assume h: "run_in a (set (ranks_of_suit s (hole @ community)))
          \<and> (\<forall>b. run_in b (set (ranks_of_suit s (hole @ community))) \<longrightarrow> b \<le> a)
          \<and> (\<forall>b. run_in b (set (map fst (hole @ community))) \<longrightarrow> a \<le> b)
          \<and> (\<exists>r\<in>set (map fst (hole @ community)). r < a)"
    then have suit: "run_in a (set (ranks_of_suit s cards))"
      and lowest: "\<And>b. run_in b (set (map fst cards)) \<Longrightarrow> a \<le> b"
      by (simp_all add: cards_def)
    obtain r where r: "r \<in> set (map fst cards)" "r < a"
      using h unfolding cards_def by blast
    have all: "run_in a (set (map fst cards))"
      using suit sub by (auto simp: run_in_def)
    have "get_best_straight (map fst cards) = [a + 4, a + 3, a + 2, a + 1, a]"
      using all lowest r by (rule get_best_straight_lowest_run)
    then show "evaluate_hand hole community = Inr (9, [a + 4, a + 3, a + 2, a + 1, a])"
      using eval [OF is_straight_run [OF suit]] by simp
  }
  {
    assume h: "{14, 2, 3, 4, 5} \<subseteq> set (ranks_of_suit s (hole @ community))
          \<and> (\<forall>b. \<not> run_in b (set (map fst (hole @ community))))"
    then have suit: "{14, 2, 3, 4, 5} \<subseteq> set (ranks_of_suit s cards)"
      and none: "\<And>b. \<not> run_in b (set (map fst cards))"
      by (simp_all add: cards_def)
    have "{14, 2, 3, 4, 5} \<subseteq> set (map fst cards)"
      using suit sub by blast
    then have "get_best_straight (map fst cards) = [5, 4, 3, 2, 14]"
      using none by (rule get_best_straight_wheel)
    then show "evaluate_hand hole community = Inr (9, [5, 4, 3, 2, 14])"
      using eval [OF is_straight_wheel [OF suit]] by simp
  }
qed

theorem straight_flush_tie_break_witness:
  "5 \<le> count_list (map snd ([(14::int, Hearts), (13, Hearts)]
       @ [(12, Hearts), (11, Hearts), (10, Hearts), (2, Clubs), (3, Spades)])) Hearts
   \<and> run_in 10 (set (ranks_of_suit Hearts ([(14, Hearts), (13, Hearts)]
       @ [(12, Hearts), (11, Hearts), (10, Hearts), (2, Clubs), (3, Spades)])))
   \<and> evaluate_hand [(14, Hearts), (13, Hearts)]
       [(12, Hearts), (11, Hearts), (10, Hearts), (2, Clubs), (3, Spades)]
     = Inr (9, [14, 13, 12, 11, 10])
   \<and> {14, 2, 3, 4, 5} \<subseteq> set (ranks_of_suit Hearts ([(14::int, Hearts), (2, Hearts)]
       @ [(3, Hearts), (4, Hearts), (5, Hearts), (9, Clubs), (11, Spades)]))
   \<and> evaluate_hand [(14, Hearts), (2, Hearts)]
       [(3, Hearts), (4, Hearts), (5, Hearts), (9, Clubs), (11, Spades)]
     = Inr (9, [5, 4, 3, 2, 14])"
proof -
  let ?royal = "[(14::int, Hearts), (13, Hearts)]
       @ [(12, Hearts), (11, Hearts), (10, Hearts), (2, Clubs), (3, Spades)]"
  let ?wheel = "[(14::int, Hearts), (2, Hearts)]
       @ [(3, Hearts), (4, Hearts), (5, Hearts), (9, Clubs), (11, Spades)]"
  have f: "5 \<le> count_list (map snd ?royal) Hearts"
    by simp
  have r: "run_in 10 (set (ranks_of_suit Hearts ?royal))"
    by (simp add: run_in_def ranks_of_suit_def)
  have hi: "\<forall>b. run_in b (set (ranks_of_suit Hearts ?royal)) \<longrightarrow> b \<le> 10"
  proof (intro allI impI)
    fix b :: int
    assume "run_in b (set (ranks_of_suit Hearts ?royal))"
    then have "b + 4 \<in> {14, 13, 12, 11, 10}"
      by (simp add: run_in_def ranks_of_suit_def)
    then show "b \<le> 10" by auto
  qed
  have lo: "\<forall>b. run_in b (set (map fst ?royal)) \<longrightarrow> 10 \<le> b"
  proof (intro allI impI)
    fix b :: int
    assume "run_in b (set (map fst ?royal))"
    then have "b \<in> {14, 13, 12, 11, 10, 2, 3}" and "b + 2 \<in> {14, 13, 12, 11, 10, 2, 3}"
      by (simp_all add: run_in_def)
    then show "10 \<le> b" by auto
  qed
  have below: "\<exists>r\<in>set (map fst ?royal). r < 10"
    by simp
  have e: "evaluate_hand [(14, Hearts), (13, Hearts)]
       [(12, Hearts), (11, Hearts), (10, Hearts), (2, Clubs), (3, Spades)]
     = Inr (9, [14, 13, 12, 11, 10])"
    using straight_flush_tie_break [OF f, of 10] r hi lo below by simp
  have f': "5 \<le> count_list (map snd ?wheel) Hearts"
    by simp
  have w: "{14, 2, 3, 4, 5} \<subseteq> set (ranks_of_suit Hearts ?wheel)"
    by (simp add: ranks_of_suit_def)
  have none: "\<forall>b. \<not> run_in b (set (map fst ?wheel))"
  proof (intro allI notI)
    fix b :: int
    assume r: "run_in b (set (map fst ?wheel))"
    then have "b \<in> {14, 2, 3, 4, 5, 9, 11}"
      by (simp add: run_in_def)
    then show False
      using r by (elim insertE emptyE) (simp_all add: run_in_def)
  qed
  have e': "evaluate_hand [(14, Hearts), (2, Hearts)]
       [(3, Hearts), (4, Hearts), (5, Hearts), (9, Clubs), (11, Spades)]
     = Inr (9, [5, 4, 3, 2, 14])"
    using straight_flush_tie_break [OF f', of 0] w none by simp
  show ?thesis
    using f r e w e' by simp
qed

section \<open>The betting pass\<close>

text \<open>
  A betting pass adds to the pot, for every player who was active at their turn, the
  field \<^verbatim>\<open>current_bet\<close> of that player as it is after the decision. A bet or a raise sets
  the field to the amount chosen and takes that amount from the chips; a fold or a check
  leaves the field, and the chips, as they were.
\<close>

lemma check_keeps_player: "is_active p \<Longrightarrow> make_decision p table_bet ''check'' r = (''check'', p)"
  by (simp add: make_decision_def)

lemma betting_round_single_check:
  assumes "is_active p"
  shows "pot (betting_round round_name (\<lambda>i. (''check'', r)) (g\<lparr>players := [p]\<rparr>))
       = pot g + current_bet p"
  using assms by (simp add: betting_round_def check_keeps_player)

lemma betting_loop_pot:
  "betting_loop answers i ps table_bet pt lg = (ps', pt', lg') \<Longrightarrow>
   pt' = pt + sum_list (map (\<lambda>(p, p'). if is_active p then current_bet p' else 0) (zip ps ps'))"
proof (induction ps arbitrary: i table_bet pt lg ps' pt' lg')
  case Nil
  then show ?case by simp
next
  case (Cons p ps)
  show ?case
  proof (cases "is_active p")
    case True
    obtain d q where m: "make_decision p table_bet (fst (answers i)) (snd (answers i)) = (d, q)"
      by (cases "make_decision p table_bet (fst (answers i)) (snd (answers i))")
    obtain qs pt2 lg2 where l: "betting_loop answers (i + 1) ps
        (if table_bet < current_bet q then current_bet q else table_bet)
        (pt + current_bet q) (lg @ [Action (name q) d (current_bet q)]) = (qs, pt2, lg2)"
      by (metis prod_cases3)
    have "ps' = q # qs" and "pt' = pt2"
      using Cons.prems True m l by simp_all
    then show ?thesis
      using Cons.IH [OF l] True by simp
  next
    case False
    obtain qs pt2 lg2 where l: "betting_loop answers (i + 1) ps table_bet pt lg = (qs, pt2, lg2)"
      by (metis prod_cases3)
    have "ps' = p # qs" and "pt' = pt2"
      using Cons.prems False l by simp_all
    then show ?thesis
      using Cons.IH [OF l] False by simp
  qed
qed

lemma make_decision_current_bet:
  assumes "is_active p" and "make_decision p table_bet answer r = (d, q)"
  shows "current_bet q =
      (if answer = ''bet'' then calculate_bet_amount p table_bet r
       else if answer = ''raise'' then calculate_raise_amount p table_bet r
       else current_bet p)"
    and "chips q = chips p -
      (if answer = ''bet'' then calculate_bet_amount p table_bet r
       else if answer = ''raise'' then calculate_raise_amount p table_bet r
       else 0)"
  using assms by (auto simp: make_decision_def Let_def split: if_splits)

text \<open>
  C6. A player who folds or checks adds 0 to the pot; one who bets or raises adds the
  amount chosen; the pot is the sum of what the players committed. The second half holds.
  For a fold or a check the pass still executes \<^verbatim>\<open>self.pot += player.current_bet\<close>, and
  \<^verbatim>\<open>current_bet\<close> is the bet of an earlier street: in a round of two players where the
  first bets 50 before the flop and both check on the flop, the check adds 50 again. The
  pot is 100 while only 50 chips have left the players.
\<close>

theorem check_adds_standing_bet_to_pot:
  "(case play_pre_flop full_deck (\<lambda>i. if i = 0 then (''bet'', 0) else (''check'', 0))
           (new_game [''AI Player 1'', ''AI Player 2''] 1000 full_deck) of
      Inl e \<Rightarrow> None
    | Inr g \<Rightarrow>
        (case play_flop (\<lambda>i. (''check'', 0)) g of
           Inl e \<Rightarrow> None
         | Inr g' \<Rightarrow> Some (pot g, map chips (players g), pot g', map chips (players g'))))
   = Some (50, [950, 1000], 100, [950, 1000])"
  by code_simp

section \<open>Showdown\<close>





section \<open>The pre-flop step\<close>

lemma deal_hand_two:
  assumes "2 \<le> length cards"
  shows "deal_hand cards
       = Inr ([last cards, last (butlast cards)], take (length cards - 2) cards)"
proof -
  have "cards \<noteq> []" and "butlast cards \<noteq> []"
    using assms by (auto simp: length_greater_0_conv [symmetric] simp del: length_greater_0_conv)
  moreover have "butlast (butlast cards) = take (length cards - 2) cards"
    by (simp add: butlast_conv_take numeral_2_eq_2)
  ultimately show ?thesis
    by (simp add: deal_hand_def numeral_2_eq_2 pop_def)
qed

lemma deal_hands_enough:
  assumes "2 * length ps \<le> length cards"
  shows "\<exists>ps' lg'. deal_hands ps cards lg
           = Inr (ps', take (length cards - 2 * length ps) cards, lg')
         \<and> map is_active ps' = map is_active ps
         \<and> map current_bet ps' = map current_bet ps
         \<and> map chips ps' = map chips ps
         \<and> map name ps' = map name ps
         \<and> list_all (\<lambda>p. length (hand p) = 2) ps'"
  using assms
proof (induction ps arbitrary: cards lg)
  case Nil
  then show ?case by simp
next
  case (Cons p ps)
  let ?h = "[last cards, last (butlast cards)]"
  let ?rest = "take (length cards - 2) cards"
  have d: "deal_hand cards = Inr (?h, ?rest)"
    using Cons.prems by (intro deal_hand_two) simp
  have "2 * length ps \<le> length ?rest"
    using Cons.prems by simp
  from Cons.IH [OF this, of "lg @ [Dealt (name p) ?h]"]
  obtain ps' lg' where r: "deal_hands ps ?rest (lg @ [Dealt (name p) ?h])
        = Inr (ps', take (length ?rest - 2 * length ps) ?rest, lg')"
    and keep: "map is_active ps' = map is_active ps" "map current_bet ps' = map current_bet ps"
      "map chips ps' = map chips ps" "map name ps' = map name ps"
      "list_all (\<lambda>p. length (hand p) = 2) ps'"
    by blast
  have "take (length ?rest - 2 * length ps) ?rest
      = take (length cards - 2 * length (p # ps)) cards"
    using Cons.prems by (simp add: min_def)
  then show ?case
    using d r keep by simp
qed


lemma full_deck_52: "length full_deck = 52 \<and> distinct full_deck"
  by code_simp

lemma shuffled_length:
  assumes "distinct shuffled" and "set shuffled = set full_deck"
  shows "length shuffled = 52"
proof -
  have "length shuffled = card (set shuffled)"
    using assms(1) by (simp add: distinct_card)
  also have "\<dots> = card (set full_deck)"
    by (simp add: assms(2))
  also have "\<dots> = length full_deck"
    using full_deck_52 by (simp add: distinct_card)
  finally show ?thesis
    using full_deck_52 by simp
qed

lemma pre_flop_deal_enough:
  assumes "num_players g \<noteq> 0" and "2 * length (players g) \<le> length shuffled"
  shows "\<exists>g1. pre_flop_deal shuffled g = Inr g1
      \<and> deck g1 = take (length shuffled - 2 * length (players g)) shuffled
      \<and> community_cards g1 = [] \<and> pot g1 = 0
      \<and> dealer_position g1 = (dealer_position g + 1) mod num_players g
      \<and> list_all (\<lambda>p. length (hand p) = 2) (players g1)
      \<and> map is_active (players g1) = map is_active (players g)
      \<and> map current_bet (players g1) = map current_bet (players g)"
proof -
  obtain ps' lg' where "deal_hands (players g) shuffled (log g @ [New_Round])
      = Inr (ps', take (length shuffled - 2 * length (players g)) shuffled, lg')"
    and "map is_active ps' = map is_active (players g)"
    and "map current_bet ps' = map current_bet (players g)"
    and "list_all (\<lambda>p. length (hand p) = 2) ps'"
    using deal_hands_enough [OF assms(2), of "log g @ [New_Round]"] by blast
  then show ?thesis
    using assms(1) by (simp add: pre_flop_deal_def)
qed

text \<open>
  C8, as the code has it. The claim makes the pre-flop step itself reset every player, so
  that a player who folded in the round before is active when the pre-flop betting pass
  runs. \<^verbatim>\<open>play_pre_flop\<close> never calls \<^verbatim>\<open>reset_for_next_round\<close>: from the table above the
  second player is dealt two cards but keeps the bet of 75 and stays folded through the
  whole step.
\<close>

theorem pre_flop_leaves_folded_player_out:
  "(case play_pre_flop full_deck (\<lambda>i. (''check'', 0)) folded_table of
      Inl e \<Rightarrow> []
    | Inr g \<Rightarrow> map (\<lambda>p. (length (hand p), current_bet p, is_active p)) (players g))
   = [(2, 0, True), (2, 75, False)]"
  by code_simp

text \<open>
  C8, amended. With at least one player, at most 26 of them, and a deck shuffled from the
  full 52 cards, the pre-flop step (up to its betting pass) succeeds: it deals from the
  fresh deck two hole cards to every player, leaving the other \<open>52 - 2n\<close> cards, clears
  the community cards and the pot, and moves the dealer position by one modulo the
  number of players; the current bet and the active flag of every player are left as
  they were. The players are reset by \<^verbatim>\<open>reset_game_for_next_round\<close> of the driver: when
  that has run first, every player is active, with current bet 0 and two hole cards, when
  the pre-flop betting pass begins.
\<close>

theorem pre_flop_after_reset:
  assumes "num_players g \<noteq> 0" and "length (players g) \<le> 26"
    and "distinct shuffled" and "set shuffled = set full_deck"
  shows "\<exists>g1 g2.
      pre_flop_deal shuffled g = Inr g1
      \<and> deck g1 = take (52 - 2 * length (players g)) shuffled
      \<and> community_cards g1 = [] \<and> pot g1 = 0
      \<and> dealer_position g1 = (dealer_position g + 1) mod num_players g
      \<and> list_all (\<lambda>p. length (hand p) = 2) (players g1)
      \<and> map is_active (players g1) = map is_active (players g)
      \<and> map current_bet (players g1) = map current_bet (players g)
      \<and> pre_flop_deal shuffled (reset_game_for_next_round earlier g) = Inr g2
      \<and> list_all (\<lambda>p. is_active p \<and> current_bet p = 0 \<and> length (hand p) = 2) (players g2)"
proof -
  have len: "length shuffled = 52"
    using assms(3,4) by (rule shuffled_length)
  then have enough: "2 * length (players g) \<le> length shuffled"
    using assms(2) by simp
  obtain g1 where g1: "pre_flop_deal shuffled g = Inr g1"
    "deck g1 = take (length shuffled - 2 * length (players g)) shuffled"
    "community_cards g1 = []" "pot g1 = 0"
    "dealer_position g1 = (dealer_position g + 1) mod num_players g"
    "list_all (\<lambda>p. length (hand p) = 2) (players g1)"
    "map is_active (players g1) = map is_active (players g)"
    "map current_bet (players g1) = map current_bet (players g)"
    using pre_flop_deal_enough [OF assms(1) enough] by blast
  let ?r = "reset_game_for_next_round earlier g"
  have "num_players ?r \<noteq> 0" and "2 * length (players ?r) \<le> length shuffled"
    using assms(1) enough by (simp_all add: reset_game_for_next_round_def)
  from pre_flop_deal_enough [OF this]
  obtain g2 where g2: "pre_flop_deal shuffled ?r = Inr g2"
    "list_all (\<lambda>p. length (hand p) = 2) (players g2)"
    "map is_active (players g2) = map is_active (players ?r)"
    "map current_bet (players g2) = map current_bet (players ?r)"
    by blast
  have a: "map is_active (players g2) = map (\<lambda>p. True) (players g)"
    and b: "map current_bet (players g2) = map (\<lambda>p. 0) (players g)"
    using g2(3,4) by (simp_all add: reset_game_for_next_round_def reset_for_next_round_def comp_def)
  have "is_active q \<and> current_bet q = 0" if "q \<in> set (players g2)" for q
  proof -
    have "is_active q \<in> set (map is_active (players g2))"
      and "current_bet q \<in> set (map current_bet (players g2))"
      using that by simp_all
    then show ?thesis
      unfolding a b by auto
  qed
  then have "list_all (\<lambda>p. is_active p \<and> current_bet p = 0 \<and> length (hand p) = 2) (players g2)"
    using g2(2) by (simp add: list_all_iff)
  then show ?thesis
    using g1 g2(1) len by simp
qed

theorem pre_flop_after_reset_witness:
  "num_players folded_table \<noteq> 0 \<and> length (players folded_table) \<le> 26
   \<and> distinct full_deck
   \<and> (\<exists>g1 g2. pre_flop_deal full_deck folded_table = Inr g1
        \<and> map is_active (players g1) = [True, False]
        \<and> pre_flop_deal full_deck (reset_game_for_next_round full_deck folded_table) = Inr g2
        \<and> list_all (\<lambda>p. is_active p \<and> current_bet p = 0 \<and> length (hand p) = 2) (players g2))"
proof -
  have h: "num_players folded_table \<noteq> 0" "length (players folded_table) \<le> 26"
    by (simp_all add: folded_table_def)
  have d: "distinct full_deck"
    using full_deck_52 by simp
  have "map is_active (players folded_table) = [True, False]"
    by (simp add: folded_table_def)
  then show ?thesis
    using h d pre_flop_after_reset [OF h d refl, of full_deck] by auto
qed

section \<open>The decision boundary\<close>








































end
